theory Spec2Isabelle
  imports Main "HOL-Library.Word" "HOL-Library.Sublist"
begin

section \<open>Bytes and the operations of Python's bytes type used by slip.py\<close>

type_synonym byte = "8 word"
type_synonym bytes = "byte list"

text \<open>
  \<^verbatim>\<open>s.replace(old, new)\<close>: every non-overlapping occurrence of \<open>old\<close> in \<open>s\<close>, found
  from the left, is replaced by \<open>new\<close>; the scan goes on after the occurrence and never
  looks at the bytes it has produced. With an empty \<open>old\<close> Python puts \<open>new\<close> before
  every byte and at the end.
\<close>

function bytes_replace :: "bytes \<Rightarrow> bytes \<Rightarrow> bytes \<Rightarrow> bytes" where
  "bytes_replace old new [] = (if old = [] then new else [])"
| "bytes_replace old new (x # xs) =
     (if old = [] then new @ x # bytes_replace old new xs
      else if prefix old (x # xs)
           then new @ bytes_replace old new (drop (length old) (x # xs))
           else x # bytes_replace old new xs)"
  by pat_completeness auto
termination
  by (relation "measure (\<lambda>(old, new, s). length s)") auto

text \<open>
  \<^verbatim>\<open>s.find(sep)\<close>: the index of the first occurrence of \<open>sep\<close> in \<open>s\<close>, if any.
  \<^verbatim>\<open>sep in s\<close> and \<^verbatim>\<open>s.partition(sep)\<close> are both decided by it.
\<close>

fun bytes_find :: "bytes \<Rightarrow> bytes \<Rightarrow> nat option" where
  "bytes_find sep [] = (if sep = [] then Some 0 else None)"
| "bytes_find sep (x # xs) =
     (if prefix sep (x # xs) then Some 0 else map_option Suc (bytes_find sep xs))"

definition bytes_contains :: "bytes \<Rightarrow> bytes \<Rightarrow> bool" where
  "bytes_contains sep s = (bytes_find sep s \<noteq> None)"

text \<open>
  \<^verbatim>\<open>s.partition(sep)\<close>: the part before the first occurrence of \<open>sep\<close>, \<open>sep\<close> itself and
  the part after it; \<open>(s, b"", b"")\<close> when \<open>sep\<close> does not occur. (Python refuses an empty
  separator; slip.py only ever passes the constant \<open>END\<close>.)
\<close>

definition bytes_partition :: "bytes \<Rightarrow> bytes \<Rightarrow> bytes \<times> bytes \<times> bytes" where
  "bytes_partition sep s =
     (case bytes_find sep s of
        None \<Rightarrow> (s, [], [])
      | Some i \<Rightarrow> (take i s, sep, drop (i + length sep) s))"

section \<open>The SLIP constants\<close>

definition END :: bytes where "END = [0xC0]"
definition ESC :: bytes where "ESC = [0xDB]"
definition ESC_END :: bytes where "ESC_END = [0xDB, 0xDC]"
definition ESC_ESC :: bytes where "ESC_ESC = [0xDB, 0xDD]"

section \<open>Exceptions, callbacks and what the outside world observes\<close>

text \<open>
  The exceptions that occur: \<open>KeyError\<close> (a dictionary lookup of an absent key),
  \<open>AttributeError\<close> (reading an attribute that was never assigned), and what a callback
  may raise: \<open>CallbackException\<close> stands for any exception derived from \<open>Exception\<close>,
  \<open>CallbackBaseException\<close> for one derived from \<open>BaseException\<close> only
  (\<open>KeyboardInterrupt\<close>, \<open>SystemExit\<close>, \<open>GeneratorExit\<close>).
\<close>

datatype error = KeyError | AttributeError | CallbackException | CallbackBaseException

fun isinstance_Exception :: "error \<Rightarrow> bool" where
  "isinstance_Exception CallbackBaseException = False"
| "isinstance_Exception _ = True"

text \<open>
  A callback receives a datagram and acts on the state \<open>'w\<close> of whoever owns it; it
  returns normally (\<open>None\<close>) or raises. It does not call back into the link that
  invokes it.
\<close>

type_synonym 'w callback = "bytes \<Rightarrow> 'w \<Rightarrow> error option \<times> 'w"

text \<open>
  The attribute \<open>callback\<close> of an \<open>Enlace\<close>: \<open>__init__\<close> does not assign it, so until
  \<open>registrar_recebedor\<close> is called it does not exist; afterwards it holds \<open>None\<close>
  (or another false value) or a callable.
\<close>

datatype 'w cbslot = Unset | NoneCb | Cb "'w callback"

text \<open>What a link does that can be seen from outside: calls of its callback, and
  tracebacks printed by \<open>traceback.print_exc()\<close>.\<close>

datatype event = Invoke bytes | PrintExc error

fun invocations :: "event list \<Rightarrow> bytes list" where
  "invocations [] = []"
| "invocations (Invoke d # es) = d # invocations es"
| "invocations (PrintExc e # es) = invocations es"

section \<open>class Enlace\<close>

text \<open>A serial line is an object of the physical layer, named here by a number. What is
  known of the lines is what has been passed to each one's \<open>enviar\<close>, in order.\<close>

type_synonym linha = nat
type_synonym linhas = "linha \<Rightarrow> bytes list"

record 'w Enlace =
  linha_serial :: linha
  callback :: "'w cbslot"
  buffer :: "bytes option"

definition Enlace_init :: "linha \<Rightarrow> 'w Enlace" where
  "Enlace_init l = \<lparr>linha_serial = l, callback = Unset, buffer = None\<rparr>"

text \<open>\<open>Enlace.registrar_recebedor\<close> assigns the attribute; its argument is a callable
  or \<open>None\<close>.\<close>

definition Enlace_registrar_recebedor :: "'w Enlace \<Rightarrow> 'w callback option \<Rightarrow> 'w Enlace" where
  "Enlace_registrar_recebedor self cb =
     self\<lparr>callback := (case cb of None \<Rightarrow> NoneCb | Some f \<Rightarrow> Cb f)\<rparr>"

text \<open>The frame built by \<open>Enlace.enviar\<close>: escape \<open>ESC\<close>, then \<open>END\<close>, then wrap.\<close>

definition escape :: "bytes \<Rightarrow> bytes" where
  "escape datagrama = bytes_replace END ESC_END (bytes_replace ESC ESC_ESC datagrama)"

definition quadro_of :: "bytes \<Rightarrow> bytes" where
  "quadro_of datagrama = END @ escape datagrama @ END"

definition Enlace_enviar :: "'w Enlace \<Rightarrow> bytes \<Rightarrow> linhas \<Rightarrow> linhas" where
  "Enlace_enviar self datagrama ls =
     ls (linha_serial self := ls (linha_serial self) @ [quadro_of datagrama])"

text \<open>The unescaping of line 101: \<open>ESC_END\<close> first, then \<open>ESC_ESC\<close>.\<close>

definition unescape :: "bytes \<Rightarrow> bytes" where
  "unescape quadro = bytes_replace ESC_ESC ESC (bytes_replace ESC_END END quadro)"

text \<open>
  The \<^verbatim>\<open>try\<close> block of lines 104 to 109. Reading an unassigned \<open>self.callback\<close> raises
  \<open>AttributeError\<close> inside the block. \<^verbatim>\<open>except Exception\<close> catches what derives from
  \<open>Exception\<close> and prints the traceback; anything else leaves the method.
\<close>

definition dispatch ::
  "'w cbslot \<Rightarrow> bytes \<Rightarrow> 'w \<Rightarrow> event list \<Rightarrow> error option \<times> 'w \<times> event list" where
  "dispatch cb quadro w log =
     (case (case cb of
              Unset \<Rightarrow> (Some AttributeError, w, log)
            | NoneCb \<Rightarrow> (None, w, log)
            | Cb f \<Rightarrow> (case f quadro w of (r, w') \<Rightarrow> (r, w', log @ [Invoke quadro])))
      of (None, w', log') \<Rightarrow> (None, w', log')
       | (Some e, w', log') \<Rightarrow>
           if isinstance_Exception e then (None, w', log' @ [PrintExc e])
           else (Some e, w', log'))"

lemma bytes_find_bound: "bytes_find sep s = Some i \<Longrightarrow> i + length sep \<le> length s"
proof (induction s arbitrary: i)
  case Nil
  then show ?case by (simp split: if_splits)
next
  case (Cons x xs)
  show ?case
  proof (cases "prefix sep (x # xs)")
    case True
    from True have "length sep \<le> length (x # xs)" by (rule prefix_length_le)
    with True Cons.prems show ?thesis by simp
  next
    case False
    with Cons.prems obtain j where "bytes_find sep xs = Some j" "i = Suc j" by auto
    with Cons.IH show ?thesis by fastforce
  qed
qed

lemma bytes_partition_shorter:
  assumes "bytes_contains END buf" and "bytes_partition END buf = (quadro, sep, buf')"
  shows "length buf' < length buf"
proof -
  from assms(1) obtain i where i: "bytes_find END buf = Some i"
    by (auto simp: bytes_contains_def)
  from bytes_find_bound [OF i] have "i + 1 \<le> length buf" by (simp add: END_def)
  moreover from assms(2) i have "buf' = drop (i + 1) buf"
    by (simp add: bytes_partition_def END_def)
  ultimately show ?thesis by simp
qed

text \<open>The \<^verbatim>\<open>while\<close> loop of lines 92 to 109, on the buffer, the callback's state and the
  events so far. An exception that is not caught ends it; the buffer then is what the
  last \<open>partition\<close> left.\<close>

function raw_recv_loop ::
  "'w cbslot \<Rightarrow> bytes \<Rightarrow> 'w \<Rightarrow> event list \<Rightarrow> error option \<times> bytes \<times> 'w \<times> event list" where
  "raw_recv_loop cb buf w log =
     (if bytes_contains END buf then
        (case bytes_partition END buf of (quadro, _, buf') \<Rightarrow>
           if quadro = [] then raw_recv_loop cb buf' w log
           else (case dispatch cb (unescape quadro) w log of
                   (None, w', log') \<Rightarrow> raw_recv_loop cb buf' w' log'
                 | (Some e, w', log') \<Rightarrow> (Some e, buf', w', log')))
      else (None, buf, w, log))"
  by pat_completeness auto
termination
  by (relation "measure (\<lambda>(cb, buf, w, log). length buf)")
     (auto dest: bytes_partition_shorter bytes_partition_shorter [OF _ sym])

declare raw_recv_loop.simps [simp del]

text \<open>\<open>Enlace.__raw_recv\<close>: create the buffer if the attribute is missing, append the
  new bytes, run the loop. The buffer is assigned on every path, also when an exception
  leaves the method.\<close>

definition buffer_bytes :: "'w Enlace \<Rightarrow> bytes" where
  "buffer_bytes self = (case buffer self of None \<Rightarrow> [] | Some b \<Rightarrow> b)"

definition raw_recv ::
  "'w Enlace \<Rightarrow> bytes \<Rightarrow> 'w \<Rightarrow> event list \<Rightarrow> error option \<times> 'w Enlace \<times> 'w \<times> event list" where
  "raw_recv self dados w log =
     (case raw_recv_loop (callback self) (buffer_bytes self @ dados) w log of
        (r, buf', w', log') \<Rightarrow> (r, self\<lparr>buffer := Some buf'\<rparr>, w', log'))"

text \<open>The serial line calling \<open>__raw_recv\<close> once for each piece it receives, in order.
  An exception that leaves \<open>__raw_recv\<close> reaches the line and ends the run.\<close>

fun recv_chunks ::
  "'w Enlace \<Rightarrow> bytes list \<Rightarrow> 'w \<Rightarrow> event list \<Rightarrow> error option \<times> 'w Enlace \<times> 'w \<times> event list" where
  "recv_chunks self [] w log = (None, self, w, log)"
| "recv_chunks self (c # cs) w log =
     (case raw_recv self c w log of
        (None, self', w', log') \<Rightarrow> recv_chunks self' cs w' log'
      | (Some e, self', w', log') \<Rightarrow> (Some e, self', w', log'))"

section \<open>class CamadaEnlace\<close>

text \<open>
  The callback of every \<open>Enlace\<close> of a \<open>CamadaEnlace\<close> is the bound method \<open>_callback\<close>.
  What it acts on: the attribute \<open>callback\<close> of the \<open>CamadaEnlace\<close> (read at each call),
  the state \<open>'u\<close> of the layer above, and the datagrams passed to that layer's callback
  so far.
\<close>

type_synonym 'u acima = "'u callback option \<times> 'u \<times> bytes list"

record 'u CamadaEnlace =
  enlaces :: "string \<rightharpoonup> 'u acima Enlace"
  callback :: "'u callback option"

definition CamadaEnlace_callback :: "'u acima callback" where
  "CamadaEnlace_callback datagrama = (\<lambda>(cb, u, entregues).
     (case cb of
        None \<Rightarrow> (None, (cb, u, entregues))
      | Some f \<Rightarrow> (case f datagrama u of (r, u') \<Rightarrow> (r, (cb, u', entregues @ [datagrama])))))"

definition CamadaEnlace_init :: "(string \<rightharpoonup> linha) \<Rightarrow> 'u CamadaEnlace" where
  "CamadaEnlace_init linhas_seriais =
     \<lparr>enlaces = (\<lambda>ip_outra_ponta.
         map_option (\<lambda>linha_serial.
             Enlace_registrar_recebedor (Enlace_init linha_serial) (Some CamadaEnlace_callback))
           (linhas_seriais ip_outra_ponta)),
      callback = None\<rparr>"

definition CamadaEnlace_registrar_recebedor ::
  "'u CamadaEnlace \<Rightarrow> 'u callback option \<Rightarrow> 'u CamadaEnlace" where
  "CamadaEnlace_registrar_recebedor self cb = self\<lparr>callback := cb\<rparr>"

text \<open>\<open>CamadaEnlace.enviar\<close>: \<open>self.enlaces[next_hop]\<close> raises \<open>KeyError\<close> for an absent
  key, before anything is sent.\<close>

definition CamadaEnlace_enviar ::
  "'u CamadaEnlace \<Rightarrow> bytes \<Rightarrow> string \<Rightarrow> linhas \<Rightarrow> error option \<times> linhas" where
  "CamadaEnlace_enviar self datagrama next_hop ls =
     (case enlaces self next_hop of
        None \<Rightarrow> (Some KeyError, ls)
      | Some enlace \<Rightarrow> (None, Enlace_enviar enlace datagrama ls))"

text \<open>Bytes arriving on the serial line of the link to \<open>ip\<close>: the line calls that link's
  \<open>__raw_recv\<close>. Nothing arrives where there is no link.\<close>

definition CamadaEnlace_raw_recv ::
  "'u CamadaEnlace \<Rightarrow> string \<Rightarrow> bytes \<Rightarrow> 'u \<Rightarrow> bytes list \<Rightarrow> event list \<Rightarrow>
     error option \<times> 'u CamadaEnlace \<times> 'u \<times> bytes list \<times> event list" where
  "CamadaEnlace_raw_recv self ip dados u entregues log =
     (case enlaces self ip of
        None \<Rightarrow> (None, self, u, entregues, log)
      | Some enlace \<Rightarrow>
          (case raw_recv enlace dados (callback self, u, entregues) log of
             (r, enlace', (cb', u', entregues'), log') \<Rightarrow>
               (r, self\<lparr>enlaces := (enlaces self)(ip \<mapsto> enlace'), callback := cb'\<rparr>,
                u', entregues', log')))"


section \<open>Callbacks and a link used as concrete inputs\<close>

text \<open>Three callbacks on a layer without state: one that returns, one that raises an
  exception derived from \<open>Exception\<close>, one that raises \<open>KeyboardInterrupt\<close>.\<close>

definition aceita :: "unit callback" where
  "aceita datagrama w = (None, w)"

definition falha :: "unit callback" where
  "falha datagrama w = (Some CallbackException, w)"

definition interrompe :: "unit callback" where
  "interrompe datagrama w = (Some CallbackBaseException, w)"

definition enlace_exemplo :: "unit callback \<Rightarrow> unit Enlace" where
  "enlace_exemplo f = Enlace_registrar_recebedor (Enlace_init 0) (Some f)"

text \<open>A callback whose layer keeps the datagrams it was called on, in order, and a
  link with it.\<close>

definition conta :: "bytes list callback" where
  "conta datagrama w = (None, w @ [datagrama])"

definition enlace_conta :: "bytes list Enlace" where
  "enlace_conta = Enlace_registrar_recebedor (Enlace_init 0) (Some conta)"

text \<open>A link layer over two serial lines, as \<open>__init__\<close> builds it.\<close>

definition camada_exemplo :: "unit CamadaEnlace" where
  "camada_exemplo = CamadaEnlace_init [''10.0.0.1'' \<mapsto> 0, ''10.0.0.2'' \<mapsto> 1]"

section \<open>Notions the properties are stated with\<close>

text \<open>The bytes after the last delimiter of a byte sequence: the frame still open.\<close>

definition partial_frame :: "bytes \<Rightarrow> bytes" where
  "partial_frame s = rev (takeWhile (\<lambda>b. b \<noteq> 0xC0) (rev s))"

text \<open>The candidate frames of a byte sequence, in order: the runs of bytes each
  closed by a delimiter (\<open>acc\<close> is the run read so far). Empty runs are among them.\<close>

fun frames_from :: "bytes \<Rightarrow> bytes \<Rightarrow> bytes list" where
  "frames_from acc [] = []"
| "frames_from acc (x # xs) =
     (if x = 0xC0 then acc # frames_from [] xs else frames_from (acc @ [x]) xs)"

text \<open>The datagrams of a byte sequence: its non-empty candidate frames, unescaped.\<close>

definition datagrams :: "bytes \<Rightarrow> bytes list" where
  "datagrams s = map unescape (filter (\<lambda>quadro. quadro \<noteq> []) (frames_from [] s))"

text \<open>Handing a list of datagrams to a callback, one after the other, each failure
  reported by a traceback and none of them stopping the delivery.\<close>

fun deliver_all :: "'w callback \<Rightarrow> bytes list \<Rightarrow> 'w \<Rightarrow> event list \<Rightarrow> 'w \<times> event list" where
  "deliver_all f [] w log = (w, log)"
| "deliver_all f (d # ds) w log =
     (case f d w of
        (None, w') \<Rightarrow> deliver_all f ds w' (log @ [Invoke d])
      | (Some e, w') \<Rightarrow> deliver_all f ds w' (log @ [Invoke d, PrintExc e]))"

section \<open>Auxiliary facts\<close>


lemma bytes_find_END:
  "bytes_find END s = (if 0xC0 \<in> set s then Some (length (takeWhile (\<lambda>b. b \<noteq> 0xC0) s)) else None)"
  by (induction s) (auto simp: END_def)

lemma bytes_contains_END: "bytes_contains END s = (0xC0 \<in> set s)"
  by (simp add: bytes_contains_def bytes_find_END)

lemma bytes_partition_END:
  "0xC0 \<notin> set pre \<Longrightarrow> bytes_partition END (pre @ 0xC0 # rest) = (pre, END, rest)"
proof -
  assume a: "0xC0 \<notin> set pre"
  then have "takeWhile (\<lambda>b. b \<noteq> 0xC0) (pre @ 0xC0 # rest) = pre"
    by (induction pre) auto
  then show ?thesis
    by (simp add: bytes_partition_def bytes_find_END) (simp add: END_def)
qed

lemma raw_recv_loop_no_END:
  "0xC0 \<notin> set buf \<Longrightarrow> raw_recv_loop cb buf w log = (None, buf, w, log)"
  by (subst raw_recv_loop.simps) (simp add: bytes_contains_END)

lemma raw_recv_loop_frame:
  "0xC0 \<notin> set pre \<Longrightarrow>
   raw_recv_loop cb (pre @ 0xC0 # rest) w log =
     (if pre = [] then raw_recv_loop cb rest w log
      else (case dispatch cb (unescape pre) w log of
              (None, w', log') \<Rightarrow> raw_recv_loop cb rest w' log'
            | (Some e, w', log') \<Rightarrow> (Some e, rest, w', log')))"
  by (subst raw_recv_loop.simps) (simp add: bytes_contains_END bytes_partition_END)

lemma split_at_END:
  "0xC0 \<in> set buf \<Longrightarrow> \<exists>pre rest. buf = pre @ 0xC0 # rest \<and> 0xC0 \<notin> set pre"
  by (metis split_list_first)

lemma bytes_replace_single:
  "bytes_replace [b] new s = concat (map (\<lambda>x. if x = b then new else [x]) s)"
  by (induction s) auto

lemma escape_concat:
  "escape d = concat (map (\<lambda>x. if x = 0xDB then [0xDB, 0xDD] else if x = 0xC0 then [0xDB, 0xDC] else [x]) d)"
  unfolding escape_def END_def ESC_def ESC_END_def ESC_ESC_def bytes_replace_single
  by (induction d) auto

lemma escape_Nil: "escape [] = []"
  by (simp add: escape_concat)

lemma escape_Cons:
  "escape (x # d) = (if x = 0xDB then [0xDB, 0xDD] else if x = 0xC0 then [0xDB, 0xDC] else [x]) @ escape d"
  by (simp add: escape_concat)

lemma escape_eq_Nil: "(escape d = []) = (d = [])"
  by (cases d) (auto simp: escape_Nil escape_Cons)

lemma END_notin_escape: "0xC0 \<notin> set (escape d)"
  by (induction d) (auto simp: escape_Nil escape_Cons)

lemma unescape_END_escape:
  "bytes_replace ESC_END END (escape d) =
     concat (map (\<lambda>x. if x = 0xDB then [0xDB, 0xDD] else [x]) d)"
  by (induction d) (auto simp: escape_Nil escape_Cons ESC_END_def END_def)

lemma unescape_ESC_step:
  "bytes_replace ESC_ESC ESC (concat (map (\<lambda>x. if x = 0xDB then [0xDB, 0xDD] else [x]) d)) = d"
  by (induction d) (auto simp: ESC_ESC_def ESC_def)

lemma unescape_escape: "unescape (escape d) = d"
  by (simp add: unescape_def unescape_END_escape unescape_ESC_step)


lemma dispatch_Cb:
  "dispatch (Cb f) q w log =
     (case f q w of
        (None, w') \<Rightarrow> (None, w', log @ [Invoke q])
      | (Some e, w') \<Rightarrow>
          if isinstance_Exception e then (None, w', log @ [Invoke q, PrintExc e])
          else (Some e, w', log @ [Invoke q]))"
  by (auto simp: dispatch_def split: prod.splits option.splits)

lemma dispatch_Unset: "dispatch Unset q w log = (None, w, log @ [PrintExc AttributeError])"
  by (simp add: dispatch_def)

lemma dispatch_NoneCb: "dispatch NoneCb q w log = (None, w, log)"
  by (simp add: dispatch_def)

lemma raw_recv_loop_append:
  "raw_recv_loop cb (buf @ c) w log =
     (case raw_recv_loop cb buf w log of
        (None, buf', w', log') \<Rightarrow> raw_recv_loop cb (buf' @ c) w' log'
      | (Some e, buf', w', log') \<Rightarrow> (Some e, buf' @ c, w', log'))"
proof (induction "length buf" arbitrary: buf w log rule: less_induct)
  case less
  show ?case
  proof (cases "0xC0 \<in> set buf")
    case False
    then show ?thesis by (simp add: raw_recv_loop_no_END)
  next
    case True
    then obtain pre rest where buf: "buf = pre @ 0xC0 # rest" and pre: "0xC0 \<notin> set pre"
      using split_at_END by blast
    have short: "length rest < length buf" by (simp add: buf)
    have app: "buf @ c = pre @ 0xC0 # (rest @ c)" by (simp add: buf)
    show ?thesis
      unfolding app unfolding buf
      by (simp add: raw_recv_loop_frame [OF pre] less [OF short] split: prod.splits option.splits)
  qed
qed

lemma raw_recv_append:
  "raw_recv self (c @ c') w log =
     (case raw_recv self c w log of
        (None, self', w', log') \<Rightarrow> raw_recv self' c' w' log'
      | (Some e, self', w', log') \<Rightarrow>
          (Some e, self'\<lparr>buffer := Some (buffer_bytes self' @ c')\<rparr>, w', log'))"
proof -
  have "raw_recv_loop (Enlace.callback self) ((buffer_bytes self @ c) @ c') w log =
     (case raw_recv_loop (Enlace.callback self) (buffer_bytes self @ c) w log of
        (None, buf', w', log') \<Rightarrow> raw_recv_loop (Enlace.callback self) (buf' @ c') w' log'
      | (Some e, buf', w', log') \<Rightarrow> (Some e, buf' @ c', w', log'))"
    by (rule raw_recv_loop_append)
  then show ?thesis
    by (simp add: raw_recv_def buffer_bytes_def split: prod.splits option.splits)
qed

lemma raw_recv_Nil:
  "0xC0 \<notin> set (buffer_bytes self) \<Longrightarrow>
   raw_recv self [] w log = (None, self\<lparr>buffer := Some (buffer_bytes self)\<rparr>, w, log)"
  by (simp add: raw_recv_def raw_recv_loop_no_END)

lemma recv_chunks_Cons:
  "case recv_chunks self (c # cs) w log of (r1, s1, w1, l1) \<Rightarrow>
     (case raw_recv self (c @ concat cs) w log of (r2, s2, w2, l2) \<Rightarrow>
        r1 = r2 \<and> w1 = w2 \<and> l1 = l2 \<and> (r1 = None \<longrightarrow> buffer_bytes s1 = buffer_bytes s2))"
proof (induction cs arbitrary: c self w log)
  case Nil
  show ?case by (simp split: prod.splits option.splits)
next
  case (Cons c' cs)
  obtain r s' w' log' where first: "raw_recv self c w log = (r, s', w', log')"
    by (cases "raw_recv self c w log") auto
  show ?case
  proof (cases r)
    case None
    with first Cons [of s' c' w' log'] show ?thesis
      by (simp add: raw_recv_append [of self c "c' @ concat cs"] del: recv_chunks.simps(2))
         (simp add: first None)
  next
    case (Some e)
    with first show ?thesis
      by (simp add: raw_recv_append [of self c "c' @ concat cs"])
  qed
qed




lemma escaped_follow:
  "i < length (escape d) \<Longrightarrow> escape d ! i = 0xDB \<Longrightarrow>
   Suc i < length (escape d) \<and> (escape d ! Suc i = 0xDC \<or> escape d ! Suc i = 0xDD)"
proof (induction d arbitrary: i)
  case Nil
  then show ?case by (simp add: escape_Nil)
next
  case (Cons x d)
  consider (esc) "x = 0xDB" | (delim) "x = 0xC0" | (other) "x \<noteq> 0xDB" "x \<noteq> 0xC0" by blast
  then show ?case
  proof cases
    case esc
    show ?thesis
    proof (cases i)
      case 0
      then show ?thesis by (simp add: escape_Cons esc)
    next
      case (Suc j)
      show ?thesis
      proof (cases j)
        case 0
        with Suc Cons.prems show ?thesis by (simp add: escape_Cons esc)
      next
        case (Suc k)
        with \<open>i = Suc j\<close> Cons.prems Cons.IH [of k] show ?thesis by (simp add: escape_Cons esc)
      qed
    qed
  next
    case delim
    show ?thesis
    proof (cases i)
      case 0
      then show ?thesis by (simp add: escape_Cons delim)
    next
      case (Suc j)
      show ?thesis
      proof (cases j)
        case 0
        with Suc Cons.prems show ?thesis by (simp add: escape_Cons delim)
      next
        case (Suc k)
        with \<open>i = Suc j\<close> Cons.prems Cons.IH [of k] show ?thesis by (simp add: escape_Cons delim)
      qed
    qed
  next
    case other
    show ?thesis
    proof (cases i)
      case 0
      with Cons.prems other show ?thesis by (simp add: escape_Cons)
    next
      case (Suc j)
      with Cons.prems Cons.IH [of j] other show ?thesis by (simp add: escape_Cons)
    qed
  qed
qed

lemma quadro_of_shape: "quadro_of d = 0xC0 # escape d @ [0xC0]"
  by (simp add: quadro_of_def END_def)

lemma raw_recv_quadro:
  assumes "Enlace.callback self = Cb f" and "buffer_bytes self = []" and "d \<noteq> []"
  shows "raw_recv self (quadro_of d @ rest) w log =
     (case dispatch (Cb f) d w log of
        (None, w', log') \<Rightarrow> raw_recv (self\<lparr>buffer := Some []\<rparr>) rest w' log'
      | (Some e, w', log') \<Rightarrow> (Some e, self\<lparr>buffer := Some rest\<rparr>, w', log'))"
proof -
  have a: "quadro_of d @ rest = [] @ 0xC0 # (escape d @ 0xC0 # rest)"
    by (simp add: quadro_of_shape)
  have b: "raw_recv_loop (Cb f) (quadro_of d @ rest) w log =
     (case dispatch (Cb f) d w log of
        (None, w', log') \<Rightarrow> raw_recv_loop (Cb f) rest w' log'
      | (Some e, w', log') \<Rightarrow> (Some e, rest, w', log'))"
    unfolding a
    by (subst raw_recv_loop_frame, simp, simp, subst raw_recv_loop_frame)
       (simp_all add: END_notin_escape escape_eq_Nil unescape_escape assms(3))
  show ?thesis
    using assms(1,2)
    by (simp add: raw_recv_def b buffer_bytes_def split: prod.splits option.splits)
qed


lemma partial_frame_no_END: "0xC0 \<notin> set s \<Longrightarrow> partial_frame s = s"
proof -
  assume "0xC0 \<notin> set s"
  then have tw: "takeWhile (\<lambda>b. b \<noteq> 0xC0) (rev s) = rev s"
    by (intro takeWhile_eq_all_conv [THEN iffD2]) auto
  show ?thesis unfolding partial_frame_def tw by simp
qed

lemma partial_frame_split: "partial_frame (pre @ 0xC0 # rest) = partial_frame rest"
proof (cases "0xC0 \<in> set rest")
  case True
  then have "\<not> (\<forall>b \<in> set (rev rest). b \<noteq> 0xC0)" by simp
  then have "takeWhile (\<lambda>b. b \<noteq> 0xC0) (rev rest @ 0xC0 # rev pre) =
      takeWhile (\<lambda>b. b \<noteq> 0xC0) (rev rest)"
    by (metis (mono_tags, lifting) takeWhile_append1)
  then show ?thesis by (simp add: partial_frame_def)
next
  case False
  have "takeWhile (\<lambda>b. b \<noteq> 0xC0) (rev rest @ 0xC0 # rev pre) =
      rev rest @ takeWhile (\<lambda>b. b \<noteq> 0xC0) (0xC0 # rev pre)"
    by (rule takeWhile_append2) (use False in auto)
  then have tw: "takeWhile (\<lambda>b. b \<noteq> 0xC0) (rev (pre @ 0xC0 # rest)) = rev rest"
    by simp
  show ?thesis
    unfolding partial_frame_no_END [OF False] unfolding partial_frame_def tw by simp
qed

lemma END_notin_partial_frame: "0xC0 \<notin> set (partial_frame s)"
  by (auto simp: partial_frame_def dest: set_takeWhileD)

lemma frames_from_no_END: "0xC0 \<notin> set s \<Longrightarrow> frames_from acc s = []"
  by (induction s arbitrary: acc) auto

lemma frames_from_split:
  "0xC0 \<notin> set pre \<Longrightarrow> frames_from acc (pre @ 0xC0 # rest) = (acc @ pre) # frames_from [] rest"
  by (induction pre arbitrary: acc) auto

lemma datagrams_no_END: "0xC0 \<notin> set s \<Longrightarrow> datagrams s = []"
  by (simp add: datagrams_def frames_from_no_END)

lemma datagrams_split:
  "0xC0 \<notin> set pre \<Longrightarrow>
   datagrams (pre @ 0xC0 # rest) =
     (if pre = [] then datagrams rest else unescape pre # datagrams rest)"
  by (simp add: datagrams_def frames_from_split)


text \<open>On a normal return the buffer is the frame still open, whatever the callback
  attribute holds.\<close>

lemma raw_recv_loop_buffer:
  "raw_recv_loop cb buf w log = (None, buf', w', log') \<Longrightarrow> buf' = partial_frame buf"
proof (induction "length buf" arbitrary: buf w log rule: less_induct)
  case less
  show ?case
  proof (cases "0xC0 \<in> set buf")
    case False
    with less.prems show ?thesis by (simp add: raw_recv_loop_no_END partial_frame_no_END)
  next
    case True
    then obtain pre rest where buf: "buf = pre @ 0xC0 # rest" and pre: "0xC0 \<notin> set pre"
      using split_at_END by blast
    have short: "length rest < length buf" by (simp add: buf)
    from less.prems have "\<exists>w1 log1. raw_recv_loop cb rest w1 log1 = (None, buf', w', log')"
      unfolding buf
      by (auto simp: raw_recv_loop_frame [OF pre] split: if_splits prod.splits option.splits)
    then obtain w1 log1 where "raw_recv_loop cb rest w1 log1 = (None, buf', w', log')" by blast
    from less.hyps [OF short this] show ?thesis by (simp add: buf partial_frame_split)
  qed
qed

text \<open>With a callback that, on the states it meets (those with \<open>I\<close>), raises nothing
  but exceptions derived from \<open>Exception\<close> on the datagrams at hand, the loop delivers
  every datagram of the buffer and returns.\<close>

lemma raw_recv_loop_deliver_inv:
  assumes "I w"
    and "\<And>d w. I w \<Longrightarrow> I (snd (f d w))"
    and "\<And>d w e. I w \<Longrightarrow> d \<in> set (datagrams buf) \<Longrightarrow> fst (f d w) = Some e \<Longrightarrow>
           isinstance_Exception e"
  shows "raw_recv_loop (Cb f) buf w log =
     (case deliver_all f (datagrams buf) w log of
        (w', log') \<Rightarrow> (None, partial_frame buf, w', log'))"
  using assms(1,3)
proof (induction "length buf" arbitrary: buf w log rule: less_induct)
  case less
  show ?case
  proof (cases "0xC0 \<in> set buf")
    case False
    then show ?thesis
      by (simp add: raw_recv_loop_no_END partial_frame_no_END datagrams_no_END)
  next
    case True
    then obtain pre rest where buf: "buf = pre @ 0xC0 # rest" and pre: "0xC0 \<notin> set pre"
      using split_at_END by blast
    have short: "length rest < length buf" by (simp add: buf)
    have sub: "set (datagrams rest) \<subseteq> set (datagrams buf)"
      by (auto simp: buf datagrams_split [OF pre])
    have IH: "raw_recv_loop (Cb f) rest w1 log1 =
       (case deliver_all f (datagrams rest) w1 log1 of
          (w', log') \<Rightarrow> (None, partial_frame rest, w', log'))" if "I w1" for w1 log1
      by (rule less.hyps [OF short that]) (use sub less.prems(2) in blast)
    show ?thesis
    proof (cases "pre = []")
      case True
      then show ?thesis
        unfolding buf
        by (simp add: raw_recv_loop_frame [of "[]", simplified] IH [OF less.prems(1)]
              datagrams_split [of "[]", simplified] partial_frame_split [of "[]", simplified])
    next
      case False
      then have mem: "unescape pre \<in> set (datagrams buf)"
        by (simp add: buf datagrams_split [OF pre])
      obtain r w1 where fr: "f (unescape pre) w = (r, w1)" by (cases "f (unescape pre) w") auto
      have ok: "r = Some e \<Longrightarrow> isinstance_Exception e" for e
        using less.prems(2) [OF less.prems(1) mem, of e] fr by simp
      have "I w1" using assms(2) [OF less.prems(1), of "unescape pre"] fr by simp
      note IH1 = IH [OF this]
      show ?thesis
        unfolding buf using False fr ok
        by (cases r)
           (simp_all add: raw_recv_loop_frame [OF pre] IH1 datagrams_split [OF pre]
              partial_frame_split dispatch_Cb)
    qed
  qed
qed


lemma partial_frame_suffix:
  "\<exists>pre. s = pre @ partial_frame s \<and> (pre = [] \<or> last pre = 0xC0)"
proof -
  let ?P = "\<lambda>b :: byte. b \<noteq> 0xC0"
  let ?pre = "rev (dropWhile ?P (rev s))"
  have "?pre @ rev (takeWhile ?P (rev s)) = rev (takeWhile ?P (rev s) @ dropWhile ?P (rev s))"
    by (simp only: rev_append)
  also have "\<dots> = s"
    by (simp only: takeWhile_dropWhile_id rev_rev_ident)
  finally have a: "s = ?pre @ partial_frame s" by (simp only: partial_frame_def)
  have b: "?pre = [] \<or> last ?pre = 0xC0"
  proof (cases "dropWhile ?P (rev s) = []")
    case True
    then show ?thesis by simp
  next
    case False
    then have "\<not> ?P (hd (dropWhile ?P (rev s)))" by (rule hd_dropWhile)
    with False show ?thesis by (simp add: last_rev)
  qed
  from a b show ?thesis by blast
qed



lemma dispatch_returns:
  assumes "\<And>f d w e. cb = Cb f \<Longrightarrow> fst (f d w) = Some e \<Longrightarrow> isinstance_Exception e"
  shows "fst (dispatch cb q w log) = None"
proof (cases cb)
  case Unset
  then show ?thesis by (simp add: dispatch_Unset)
next
  case NoneCb
  then show ?thesis by (simp add: dispatch_NoneCb)
next
  case (Cb f)
  obtain r w1 where fr: "f q w = (r, w1)" by (cases "f q w") auto
  have "r = Some e \<Longrightarrow> isinstance_Exception e" for e
    using assms [OF Cb, of q w e] fr by simp
  with fr Cb show ?thesis by (cases r) (simp_all add: dispatch_Cb)
qed

lemma raw_recv_loop_returns:
  assumes "\<And>f d w e. cb = Cb f \<Longrightarrow> fst (f d w) = Some e \<Longrightarrow> isinstance_Exception e"
  shows "fst (raw_recv_loop cb buf w log) = None"
proof (induction "length buf" arbitrary: buf w log rule: less_induct)
  case less
  show ?case
  proof (cases "0xC0 \<in> set buf")
    case False
    then show ?thesis by (simp add: raw_recv_loop_no_END)
  next
    case True
    then obtain pre rest where buf: "buf = pre @ 0xC0 # rest" and pre: "0xC0 \<notin> set pre"
      using split_at_END by blast
    have short: "length rest < length buf" by (simp add: buf)
    obtain r w1 log1 where d: "dispatch cb (unescape pre) w log = (r, w1, log1)"
      by (cases "dispatch cb (unescape pre) w log") auto
    with dispatch_returns [of cb "unescape pre" w log] assms have "r = None" by simp
    with d less.hyps [OF short] show ?thesis
      unfolding buf by (simp add: raw_recv_loop_frame [OF pre])
  qed
qed

lemma raw_recv_delimiters:
  "buffer_bytes self = [] \<Longrightarrow>
   raw_recv self (replicate n 0xC0) w log = (None, self\<lparr>buffer := Some []\<rparr>, w, log)"
proof -
  have "raw_recv_loop cb (replicate n 0xC0) w log = (None, [], w, log)" for cb :: "'a cbslot"
  proof (induction n)
    case 0
    show ?case by (simp add: raw_recv_loop_no_END)
  next
    case (Suc n)
    have "raw_recv_loop cb ([] @ 0xC0 # replicate n 0xC0) w log = raw_recv_loop cb (replicate n 0xC0) w log"
      by (subst raw_recv_loop_frame) simp_all
    with Suc show ?case by simp
  qed
  then show "buffer_bytes self = [] \<Longrightarrow> ?thesis" by (simp add: raw_recv_def)
qed

lemma raw_recv_one_frame:
  assumes "Enlace.callback self = Cb f" and "buffer_bytes self = []" and "d \<noteq> []"
  shows "raw_recv self (quadro_of d) w log =
     (case f d w of
        (None, w') \<Rightarrow> (None, self\<lparr>buffer := Some []\<rparr>, w', log @ [Invoke d])
      | (Some e, w') \<Rightarrow>
          if isinstance_Exception e
          then (None, self\<lparr>buffer := Some []\<rparr>, w', log @ [Invoke d, PrintExc e])
          else (Some e, self\<lparr>buffer := Some []\<rparr>, w', log @ [Invoke d]))"
proof -
  have "raw_recv (self\<lparr>buffer := Some []\<rparr>) [] w' log' = (None, self\<lparr>buffer := Some []\<rparr>, w', log')"
    for w' log'
    using raw_recv_Nil [of "self\<lparr>buffer := Some []\<rparr>" w' log'] by (simp add: buffer_bytes_def)
  then show ?thesis
    using raw_recv_quadro [OF assms, of "[]" w log]
    by (auto simp: dispatch_Cb split: prod.splits option.splits if_splits)
qed


lemma raw_recv_deliver_inv:
  assumes "Enlace.callback self = Cb f" and "I w"
    and "\<And>d w. I w \<Longrightarrow> I (snd (f d w))"
    and "\<And>d w e. I w \<Longrightarrow> fst (f d w) = Some e \<Longrightarrow> isinstance_Exception e"
  shows "raw_recv self dados w log =
     (case deliver_all f (datagrams (buffer_bytes self @ dados)) w log of
        (w', log') \<Rightarrow>
          (None, self\<lparr>buffer := Some (partial_frame (buffer_bytes self @ dados))\<rparr>, w', log'))"
proof -
  have "raw_recv_loop (Cb f) (buffer_bytes self @ dados) w log =
     (case deliver_all f (datagrams (buffer_bytes self @ dados)) w log of
        (w', log') \<Rightarrow> (None, partial_frame (buffer_bytes self @ dados), w', log'))"
    by (rule raw_recv_loop_deliver_inv [of I]) (use assms in auto)
  with assms(1) show ?thesis by (simp add: raw_recv_def split: prod.splits)
qed

lemma CamadaEnlace_callback_slot:
  "fst (snd (CamadaEnlace_callback d w)) = fst w"
  by (cases w) (auto simp: CamadaEnlace_callback_def split: option.splits prod.splits)

lemma deliver_all_callback_None:
  "deliver_all CamadaEnlace_callback ds (None, u, entregues) log =
     ((None, u, entregues), log @ map Invoke ds)"
  by (induction ds arbitrary: log) (simp_all add: CamadaEnlace_callback_def)

lemma deliver_all_callback_Some:
  "\<exists>u' log'. deliver_all CamadaEnlace_callback ds (Some f, u, entregues) log =
     ((Some f, u', entregues @ ds), log')"
proof (induction ds arbitrary: u entregues log)
  case Nil
  show ?case by simp
next
  case (Cons d ds)
  obtain r u1 where fr: "f d u = (r, u1)" by (cases "f d u") auto
  show ?case
  proof (cases r)
    case None
    with fr Cons [of u1 "entregues @ [d]" "log @ [Invoke d]"] show ?thesis
      by (simp add: CamadaEnlace_callback_def)
  next
    case (Some e)
    with fr Cons [of u1 "entregues @ [d]" "log @ [Invoke d, PrintExc e]"] show ?thesis
      by (simp add: CamadaEnlace_callback_def)
  qed
qed

lemma CamadaEnlace_callback_raises:
  "fst (CamadaEnlace_callback d (cb, u, entregues)) = Some e \<Longrightarrow>
   \<exists>f. cb = Some f \<and> fst (f d u) = Some e"
  by (auto simp: CamadaEnlace_callback_def split: option.splits prod.splits)


section \<open>The properties of the specification\<close>

lemmas exemplo_defs =
  enlace_exemplo_def enlace_conta_def Enlace_init_def Enlace_registrar_recebedor_def aceita_def
  falha_def interrompe_def conta_def

lemmas eval_defs =
  raw_recv_def buffer_bytes_def raw_recv_loop.simps bytes_contains_def bytes_partition_def
  dispatch_def unescape_def escape_def quadro_of_def END_def ESC_def ESC_END_def ESC_ESC_def

text \<open>
  C1, round trip, does not hold for the empty datagram: its frame is two
  delimiters, both candidate frames are empty and \<open>__raw_recv\<close> skips them, so the
  callback is not invoked at all.
\<close>

theorem C1_round_trip_counterexample:
  "quadro_of [] = [0xC0, 0xC0] \<and>
   raw_recv (enlace_exemplo aceita) (quadro_of []) () [] =
     (None, (enlace_exemplo aceita)\<lparr>buffer := Some []\<rparr>, (), []) \<and>
   invocations (snd (snd (snd (raw_recv (enlace_exemplo aceita) (quadro_of []) () [])))) \<noteq> [[]]"
  by (simp add: exemplo_defs eval_defs)

text \<open>
  C1 as amended. For every non-empty datagram \<open>d\<close>, with any bytes in it, handing the
  frame that \<open>Enlace.enviar\<close> builds for \<open>d\<close> to \<open>__raw_recv\<close>, on a link with a callback
  \<open>f\<close> and an empty buffer, is one call of \<open>f\<close> on \<open>d\<close> and nothing else: the state of the
  layer above is the one \<open>f\<close> leaves, the only invocation recorded is the one of \<open>d\<close>,
  followed by a traceback when \<open>f\<close> raised an exception derived from \<open>Exception\<close>, and
  the call returns unless \<open>f\<close> raised another exception, which then leaves the method.
  For the empty datagram \<open>f\<close> is not called: state and events are unchanged. In every case
  the buffer is empty afterwards.
\<close>

theorem C1_round_trip:
  assumes "Enlace.callback self = Cb f" and "buffer_bytes self = []"
  shows "raw_recv self (quadro_of d) w log =
     (if d = [] then (None, self\<lparr>buffer := Some []\<rparr>, w, log)
      else (case f d w of
              (None, w') \<Rightarrow> (None, self\<lparr>buffer := Some []\<rparr>, w', log @ [Invoke d])
            | (Some e, w') \<Rightarrow>
                if isinstance_Exception e
                then (None, self\<lparr>buffer := Some []\<rparr>, w', log @ [Invoke d, PrintExc e])
                else (Some e, self\<lparr>buffer := Some []\<rparr>, w', log @ [Invoke d])))"
proof (cases "d = []")
  case True
  have "quadro_of [] = replicate 2 0xC0"
    by (simp add: quadro_of_shape escape_Nil numeral_2_eq_2)
  with True show ?thesis
    by (simp add: raw_recv_delimiters [OF assms(2)])
next
  case False
  then show ?thesis
    by (simp add: raw_recv_one_frame [OF assms False])
qed

text \<open>A callback that counts its calls in the state of the layer above shows the call
  of \<open>f\<close>: one call for a non-empty datagram, none for the empty one.\<close>

theorem C1_round_trip_witness:
  "Enlace.callback (enlace_conta) = Cb conta \<and>
   buffer_bytes enlace_conta = [] \<and>
   quadro_of [0xDB, 0xC0, 0xDC] = [0xC0, 0xDB, 0xDD, 0xDB, 0xDC, 0xDC, 0xC0] \<and>
   raw_recv enlace_conta (quadro_of [0xDB, 0xC0, 0xDC]) [] [] =
     (None, enlace_conta\<lparr>buffer := Some []\<rparr>, [[0xDB, 0xC0, 0xDC]],
      [Invoke [0xDB, 0xC0, 0xDC]]) \<and>
   raw_recv enlace_conta (quadro_of []) [] [] =
     (None, enlace_conta\<lparr>buffer := Some []\<rparr>, [], [])"
  using C1_round_trip [of enlace_conta conta "[0xDB, 0xC0, 0xDC]" "[]" "[]"]
    C1_round_trip [of enlace_conta conta "[]" "[]" "[]"]
  by (simp add: exemplo_defs eval_defs)

text \<open>
  C2, fragmentation invariance. Whatever the bytes are and however they are cut into
  pieces (also empty ones), handing the pieces to \<open>__raw_recv\<close> one after the other
  produces the same callback invocations and tracebacks, the same state of the layer
  above and the same outcome as handing all the bytes over in one call; when no exception
  leaves the link, the same buffer too. A run with no piece at all is compared with a call
  on no bytes, which needs a buffer without delimiter.
\<close>

theorem C2_fragmentation_invariance:
  assumes "cs \<noteq> [] \<or> 0xC0 \<notin> set (buffer_bytes self)"
  shows "case recv_chunks self cs w log of (r1, s1, w1, l1) \<Rightarrow>
     (case raw_recv self (concat cs) w log of (r2, s2, w2, l2) \<Rightarrow>
        r1 = r2 \<and> w1 = w2 \<and> l1 = l2 \<and> (r1 = None \<longrightarrow> buffer_bytes s1 = buffer_bytes s2))"
proof (cases cs)
  case Nil
  with assms show ?thesis by (simp add: raw_recv_Nil buffer_bytes_def)
next
  case (Cons c cs')
  with recv_chunks_Cons [of self c cs' w log] show ?thesis by simp
qed

theorem C2_fragmentation_invariance_witness:
  "[[0xC0, 0x41], [0x42, 0xC0, 0x43], [0xC0]] \<noteq> ([] :: bytes list) \<and>
   recv_chunks (enlace_exemplo aceita) [[0xC0, 0x41], [0x42, 0xC0, 0x43], [0xC0]] () [] =
     (None, (enlace_exemplo aceita)\<lparr>buffer := Some []\<rparr>, (),
      [Invoke [0x41, 0x42], Invoke [0x43]]) \<and>
   raw_recv (enlace_exemplo aceita) [0xC0, 0x41, 0x42, 0xC0, 0x43, 0xC0] () [] =
     (None, (enlace_exemplo aceita)\<lparr>buffer := Some []\<rparr>, (),
      [Invoke [0x41, 0x42], Invoke [0x43]])"
  using C2_fragmentation_invariance
    [of "[[0xC0, 0x41], [0x42, 0xC0, 0x43], [0xC0]]" "enlace_exemplo aceita" "()" "[]"]
  by (simp add: exemplo_defs eval_defs)



text \<open>
  C4, the concrete scenario. \<open>Enlace.enviar\<close> on the datagram \<open>0xC0 0xDB\<close> passes exactly
  the six bytes \<open>0xC0 0xDB 0xDC 0xDB 0xDD 0xC0\<close> to the \<open>enviar\<close> of its serial line, and
  \<open>__raw_recv\<close> on those six bytes, on a link with a callback \<open>f\<close> and an empty buffer, is
  one call of \<open>f\<close> on \<open>0xC0 0xDB\<close> and nothing else: the state of the layer above is the one
  \<open>f\<close> leaves, the only invocation recorded is that one, followed by a traceback when \<open>f\<close>
  raised an exception derived from \<open>Exception\<close>; the call returns unless \<open>f\<close> raised
  another exception; the buffer is empty afterwards.
\<close>

theorem C4_concrete_scenario:
  assumes "Enlace.callback self = Cb f" and "buffer_bytes self = []"
  shows "Enlace_enviar self [0xC0, 0xDB] ls =
           ls (linha_serial self := ls (linha_serial self) @ [[0xC0, 0xDB, 0xDC, 0xDB, 0xDD, 0xC0]]) \<and>
         raw_recv self [0xC0, 0xDB, 0xDC, 0xDB, 0xDD, 0xC0] w log =
           (case f [0xC0, 0xDB] w of
              (None, w') \<Rightarrow> (None, self\<lparr>buffer := Some []\<rparr>, w', log @ [Invoke [0xC0, 0xDB]])
            | (Some e, w') \<Rightarrow>
                if isinstance_Exception e
                then (None, self\<lparr>buffer := Some []\<rparr>, w',
                      log @ [Invoke [0xC0, 0xDB], PrintExc e])
                else (Some e, self\<lparr>buffer := Some []\<rparr>, w', log @ [Invoke [0xC0, 0xDB]]))"
proof -
  have q: "quadro_of [0xC0, 0xDB] = [0xC0, 0xDB, 0xDC, 0xDB, 0xDD, 0xC0]"
    by (simp add: quadro_of_def escape_def END_def ESC_def ESC_END_def ESC_ESC_def)
  have "[0xC0, 0xDB] \<noteq> ([] :: bytes)" by simp
  from raw_recv_one_frame [OF assms this, of w log] show ?thesis
    unfolding q by (simp add: Enlace_enviar_def q)
qed

theorem C4_concrete_scenario_witness:
  "Enlace.callback enlace_conta = Cb conta \<and>
   buffer_bytes enlace_conta = [] \<and>
   Enlace_enviar enlace_conta [0xC0, 0xDB] (\<lambda>l. []) 0 =
     [[0xC0, 0xDB, 0xDC, 0xDB, 0xDD, 0xC0]] \<and>
   raw_recv enlace_conta [0xC0, 0xDB, 0xDC, 0xDB, 0xDD, 0xC0] [] [] =
     (None, enlace_conta\<lparr>buffer := Some []\<rparr>, [[0xC0, 0xDB]], [Invoke [0xC0, 0xDB]])"
  using C4_concrete_scenario [of enlace_conta conta "\<lambda>l. []" "[]" "[]"]
  by (simp add: exemplo_defs eval_defs Enlace_enviar_def)

text \<open>
  C5, routing. \<open>CamadaEnlace.enviar\<close> with an address of the registry passes the frame of
  the datagram to the serial line of the link registered for that address, and to no other
  line; with an address that is not in the registry it fails with \<open>KeyError\<close> (the error
  the specification calls AddressUnknownError) and nothing is passed to any line.
\<close>

theorem C5_routing:
  "(enlaces self next_hop = Some enlace \<longrightarrow>
      CamadaEnlace_enviar self d next_hop ls =
        (None, ls (linha_serial enlace := ls (linha_serial enlace) @ [quadro_of d])) \<and>
      (\<forall>l. l \<noteq> linha_serial enlace \<longrightarrow>
         snd (CamadaEnlace_enviar self d next_hop ls) l = ls l)) \<and>
   (enlaces self next_hop = None \<longrightarrow>
      CamadaEnlace_enviar self d next_hop ls = (Some KeyError, ls))"
  by (simp add: CamadaEnlace_enviar_def Enlace_enviar_def)

theorem C5_routing_witness:
  "map_option linha_serial (enlaces camada_exemplo ''10.0.0.1'') = Some 0 \<and>
   CamadaEnlace_enviar camada_exemplo [0x41] ''10.0.0.1'' (\<lambda>l. []) =
     (None, (\<lambda>l. []) (0 := [[0xC0, 0x41, 0xC0]])) \<and>
   snd (CamadaEnlace_enviar camada_exemplo [0x41] ''10.0.0.1'' (\<lambda>l. [])) 1 = [] \<and>
   enlaces camada_exemplo ''10.0.0.9'' = None \<and>
   CamadaEnlace_enviar camada_exemplo [0x41] ''10.0.0.9'' (\<lambda>l. []) = (Some KeyError, \<lambda>l. [])"
  using C5_routing [of camada_exemplo "''10.0.0.1''"
      "Enlace_registrar_recebedor (Enlace_init 0) (Some CamadaEnlace_callback)" "[0x41]" "\<lambda>l. []"]
    C5_routing [of camada_exemplo "''10.0.0.9''"
      "Enlace_registrar_recebedor (Enlace_init 0) (Some CamadaEnlace_callback)" "[0x41]" "\<lambda>l. []"]
  by (simp add: camada_exemplo_def CamadaEnlace_init_def exemplo_defs eval_defs
        CamadaEnlace_enviar_def Enlace_enviar_def)




text \<open>
  C7, the invariant of the reassembly buffer. Whenever \<open>__raw_recv\<close> returns, the buffer
  is exactly what was received after the last delimiter (all of the old buffer and the
  new bytes when there is none): it holds no \<open>0xC0\<close>, and nothing of an unterminated frame
  is lost. And \<open>__raw_recv\<close> does return whenever the callback, if there is one, raises
  nothing but exceptions derived from \<open>Exception\<close>.
\<close>

theorem C7_buffer_invariant:
  "case raw_recv self dados w log of
     (r, self', w', log') \<Rightarrow>
       (r = None \<longrightarrow>
          buffer self' = Some (partial_frame (buffer_bytes self @ dados)) \<and>
          0xC0 \<notin> set (buffer_bytes self') \<and>
          (\<exists>pre. buffer_bytes self @ dados = pre @ buffer_bytes self' \<and>
                 (pre = [] \<or> last pre = 0xC0))) \<and>
       ((\<forall>f d w e. Enlace.callback self = Cb f \<longrightarrow> fst (f d w) = Some e \<longrightarrow>
            isinstance_Exception e) \<longrightarrow> r = None)"
proof -
  obtain r buf' w' log' where
    loop: "raw_recv_loop (Enlace.callback self) (buffer_bytes self @ dados) w log = (r, buf', w', log')"
    by (cases "raw_recv_loop (Enlace.callback self) (buffer_bytes self @ dados) w log") auto
  have a: "buf' = partial_frame (buffer_bytes self @ dados)" if "r = None"
    using raw_recv_loop_buffer [of "Enlace.callback self" "buffer_bytes self @ dados" w log buf' w' log']
      loop that by simp
  have b: "r = None"
    if "\<forall>f d w e. Enlace.callback self = Cb f \<longrightarrow> fst (f d w) = Some e \<longrightarrow> isinstance_Exception e"
    using raw_recv_loop_returns [of "Enlace.callback self" "buffer_bytes self @ dados" w log]
      loop that by auto
  from a b show ?thesis
    using partial_frame_suffix [of "buffer_bytes self @ dados"]
      END_notin_partial_frame [of "buffer_bytes self @ dados"]
    by (simp add: raw_recv_def loop) (simp add: buffer_bytes_def)
qed

theorem C7_buffer_invariant_witness:
  "raw_recv (enlace_exemplo aceita) [0xC0, 0x41, 0xC0, 0x42, 0x43] () [] =
     (None, (enlace_exemplo aceita)\<lparr>buffer := Some [0x42, 0x43]\<rparr>, (), [Invoke [0x41]]) \<and>
   partial_frame (buffer_bytes (enlace_exemplo aceita) @ [0xC0, 0x41, 0xC0, 0x42, 0x43]) =
     [0x42, 0x43] \<and>
   0xC0 \<notin> set [0x42, 0x43 :: byte]"
  using C7_buffer_invariant [of "enlace_exemplo aceita" "[0xC0, 0x41, 0xC0, 0x42, 0x43]" "()" "[]"]
  by (simp add: exemplo_defs eval_defs partial_frame_def)

text \<open>
  C8, idempotent emptiness. On a link whose buffer is empty (or not yet created), a chunk
  of \<open>n\<close> delimiter bytes, for every \<open>n\<close> and so for every \<open>n \<ge> 1\<close>, returns normally, adds
  no event (no callback invocation, no traceback) and leaves the buffer empty, whatever
  the callback attribute holds.
\<close>

theorem C8_idempotent_emptiness:
  "buffer_bytes self = [] \<Longrightarrow>
   raw_recv self (replicate n 0xC0) w log = (None, self\<lparr>buffer := Some []\<rparr>, w, log)"
  by (rule raw_recv_delimiters)

theorem C8_idempotent_emptiness_witness:
  "buffer_bytes (enlace_exemplo aceita) = [] \<and>
   raw_recv (enlace_exemplo aceita) [0xC0, 0xC0, 0xC0] () [] =
     (None, (enlace_exemplo aceita)\<lparr>buffer := Some []\<rparr>, (), [])"
proof -
  have h: "buffer_bytes (enlace_exemplo aceita) = []"
    by (simp add: exemplo_defs buffer_bytes_def)
  have r: "replicate 3 (0xC0 :: byte) = [0xC0, 0xC0, 0xC0]"
    by (simp add: numeral_3_eq_3)
  have "raw_recv (enlace_exemplo aceita) (replicate 3 0xC0) () [] =
     (None, (enlace_exemplo aceita)\<lparr>buffer := Some []\<rparr>, (), [])"
    by (rule C8_idempotent_emptiness [OF h])
  with h show ?thesis unfolding r by simp
qed

text \<open>
  C9, datagrams decoded while no receiver is registered. On a \<open>CamadaEnlace\<close> whose
  \<open>callback\<close> is \<open>None\<close>, bytes arriving on any of its links are decoded and every datagram
  is passed to \<open>_callback\<close>, which returns without doing anything: no exception, no
  traceback, nothing handed to the layer above, whose state is untouched. All the layer
  keeps of the bytes is the frame still open in that link's buffer, so the datagrams are
  not queued: after a later \<open>registrar_recebedor\<close>, with a callback that raises nothing but
  exceptions derived from \<open>Exception\<close>, the next bytes on the link deliver the datagrams of
  the open frame followed by the new bytes, and no earlier one.
\<close>

theorem C9_unregistered_receiver_drop:
  assumes "CamadaEnlace.callback self = None"
    and "enlaces self ip = Some enlace"
    and "Enlace.callback enlace = Cb CamadaEnlace_callback"
  shows "case CamadaEnlace_raw_recv self ip dados u entregues log of
     (r, self', u', entregues', log') \<Rightarrow>
       r = None \<and> u' = u \<and> entregues' = entregues \<and>
       log' = log @ map Invoke (datagrams (buffer_bytes enlace @ dados)) \<and>
       self' = self\<lparr>enlaces := (enlaces self)(ip \<mapsto>
                 enlace\<lparr>buffer := Some (partial_frame (buffer_bytes enlace @ dados))\<rparr>)\<rparr> \<and>
       ((\<forall>d u e. fst (f d u) = Some e \<longrightarrow> isinstance_Exception e) \<longrightarrow>
          (case CamadaEnlace_raw_recv (CamadaEnlace_registrar_recebedor self' (Some f))
                  ip dados2 u' entregues' log' of
             (r2, self2, u2, entregues2, log2) \<Rightarrow>
               r2 = None \<and>
               entregues2 =
                 entregues @ datagrams (partial_frame (buffer_bytes enlace @ dados) @ dados2)))"
proof -
  let ?buf = "partial_frame (buffer_bytes enlace @ dados)"
  let ?enlace' = "enlace\<lparr>buffer := Some ?buf\<rparr>"
  let ?self' = "self\<lparr>enlaces := (enlaces self)(ip \<mapsto> ?enlace')\<rparr>"
  let ?log' = "log @ map Invoke (datagrams (buffer_bytes enlace @ dados))"
  have first: "CamadaEnlace_raw_recv self ip dados u entregues log =
      (None, ?self', u, entregues, ?log')"
  proof -
    have "raw_recv enlace dados (None, u, entregues) log =
        (None, ?enlace', (None, u, entregues), ?log')"
      by (subst raw_recv_deliver_inv [OF assms(3), of "\<lambda>w. fst w = None"])
         (auto simp: deliver_all_callback_None CamadaEnlace_callback_slot
            dest: CamadaEnlace_callback_raises)
    with assms(1,2) show ?thesis by (simp add: CamadaEnlace_raw_recv_def)
  qed
  have second: "case CamadaEnlace_raw_recv (CamadaEnlace_registrar_recebedor ?self' (Some f))
        ip dados2 u entregues ?log' of
      (r2, self2, u2, entregues2, log2) \<Rightarrow>
        r2 = None \<and> entregues2 = entregues @ datagrams (?buf @ dados2)"
    if ok: "\<forall>d u e. fst (f d u) = Some e \<longrightarrow> isinstance_Exception e"
  proof -
    have cb: "Enlace.callback ?enlace' = Cb CamadaEnlace_callback"
      using assms(3) by simp
    have exc: "isinstance_Exception e"
      if "fst w = Some f" and "fst (CamadaEnlace_callback d w) = Some e"
      for d e and w :: "'a acima"
    proof -
      obtain c u1 en where w: "w = (c, u1, en)" by (cases w) auto
      from that CamadaEnlace_callback_raises [of d c u1 en e] ok show ?thesis
        unfolding w by auto
    qed
    obtain u2 log2 where
      "deliver_all CamadaEnlace_callback (datagrams (?buf @ dados2)) (Some f, u, entregues) ?log' =
         ((Some f, u2, entregues @ datagrams (?buf @ dados2)), log2)"
      using deliver_all_callback_Some [of "datagrams (?buf @ dados2)" f u entregues ?log']
      by blast
    then have "raw_recv ?enlace' dados2 (Some f, u, entregues) ?log' =
        (None, ?enlace'\<lparr>buffer := Some (partial_frame (?buf @ dados2))\<rparr>,
         (Some f, u2, entregues @ datagrams (?buf @ dados2)), log2)"
      using raw_recv_deliver_inv [OF cb, of "\<lambda>w. fst w = Some f" "(Some f, u, entregues)"
          dados2 ?log'] exc
      by (simp add: buffer_bytes_def CamadaEnlace_callback_slot)
    then show ?thesis
      by (simp add: CamadaEnlace_raw_recv_def CamadaEnlace_registrar_recebedor_def)
  qed
  from second show ?thesis by (simp add: first)
qed

theorem C9_unregistered_receiver_drop_witness:
  "CamadaEnlace.callback camada_exemplo = None \<and>
   map_option Enlace.callback (enlaces camada_exemplo ''10.0.0.1'') =
     Some (Cb CamadaEnlace_callback) \<and>
   fst (snd (snd (snd (CamadaEnlace_raw_recv camada_exemplo ''10.0.0.1''
     [0xC0, 0x41, 0xC0, 0x42] () [] [])))) = [] \<and>
   fst (snd (snd (snd (CamadaEnlace_raw_recv
     (CamadaEnlace_registrar_recebedor
        (fst (snd (CamadaEnlace_raw_recv camada_exemplo ''10.0.0.1'' [0xC0, 0x41, 0xC0, 0x42] () [] [])))
        (Some aceita))
     ''10.0.0.1'' [0x43, 0xC0] () [] [])))) = [[0x42, 0x43]]"
  using C9_unregistered_receiver_drop [where self = camada_exemplo and ip = "''10.0.0.1''"
      and enlace = "Enlace_registrar_recebedor (Enlace_init 0) (Some CamadaEnlace_callback)"
      and dados = "[0xC0, 0x41, 0xC0, 0x42]" and u = "()" and entregues = "[]" and log = "[]"
      and f = aceita and ?dados2.0 = "[0x43, 0xC0]"]
  by (simp add: camada_exemplo_def CamadaEnlace_init_def CamadaEnlace_raw_recv_def
        CamadaEnlace_registrar_recebedor_def CamadaEnlace_callback_def exemplo_defs eval_defs
        partial_frame_def datagrams_def)

text \<open>
  C10, the frame built by \<open>Enlace.enviar\<close>. The escaped payload contains no \<open>0xC0\<close>; the
  frame is \<open>0xC0\<close>, the escaped payload, \<open>0xC0\<close>, so it holds exactly two \<open>0xC0\<close> bytes, its
  first and its last; and every \<open>0xDB\<close> of the escaped payload is followed, inside the
  payload, by \<open>0xDC\<close> or \<open>0xDD\<close>.
\<close>

theorem C10_frame_shape:
  "0xC0 \<notin> set (escape d) \<and>
   quadro_of d = [0xC0] @ escape d @ [0xC0] \<and>
   count_list (quadro_of d) 0xC0 = 2 \<and>
   hd (quadro_of d) = 0xC0 \<and> last (quadro_of d) = 0xC0 \<and>
   (\<forall>i < length (escape d). escape d ! i = 0xDB \<longrightarrow>
      Suc i < length (escape d) \<and> (escape d ! Suc i = 0xDC \<or> escape d ! Suc i = 0xDD))"
proof -
  have "count_list (escape d) 0xC0 = 0"
    using END_notin_escape [of d] by (simp add: count_list_0_iff)
  then have "count_list (quadro_of d) 0xC0 = 2"
    by (simp add: quadro_of_shape)
  then show ?thesis
    using END_notin_escape [of d] escaped_follow [of _ d] by (simp add: quadro_of_shape)
qed

theorem C10_frame_shape_witness:
  "escape [0xC0, 0x41, 0xDB] = [0xDB, 0xDC, 0x41, 0xDB, 0xDD] \<and>
   (3 :: nat) < length (escape [0xC0, 0x41, 0xDB]) \<and>
   escape [0xC0, 0x41, 0xDB] ! 3 = 0xDB \<and>
   escape [0xC0, 0x41, 0xDB] ! Suc 3 = 0xDD \<and>
   count_list (quadro_of [0xC0, 0x41, 0xDB]) 0xC0 = 2"
  using C10_frame_shape [of "[0xC0, 0x41, 0xDB]"]
  by (simp add: escape_def END_def ESC_def ESC_END_def ESC_ESC_def)

end
